theory Spec2Isabelle
  imports Main "HOL-Library.Multiset"
begin

section \<open>Data model of \<open>game.py\<close>\<close>

text \<open>
  The enum \<open>Cell\<close>, the dataclasses \<open>Player\<close> and \<open>TicTacToe\<close>. The board is a Python
  list of row lists; the default factory builds three distinct rows of three cells, and
  no code path shares a row between two positions, so the board is modelled as a value
  of type \<open>Cell list list\<close>. Nothing in the dataclass fixes the shape, hence the model
  keeps Python's indexing, with its negative indices and its \<open>IndexError\<close>.

  The members \<open>Cell.EMPTY\<close>, \<open>Cell.X\<close> and \<open>Cell.O\<close> carry their class as a prefix, since
  \<open>O\<close> alone is the composition of relations in HOL.
\<close>

datatype Cell = Cell_EMPTY | Cell_X | Cell_O

datatype py_error = IndexError | ValueError

record Player =
  user_id :: int
  username :: string
  symbol :: Cell

type_synonym coord = "int \<times> int"

type_synonym grid = "Cell list list"

record TicTacToe =
  board :: grid
  player_x :: "Player option"
  player_o :: "Player option"
  current_turn :: Cell
  is_vs_bot :: bool
  game_over :: bool
  winner :: "Cell option"

definition new_game :: TicTacToe where
  "new_game =
     \<lparr>board = replicate 3 (replicate 3 Cell_EMPTY), player_x = None, player_o = None,
      current_turn = Cell_X, is_vs_bot = False, game_over = False, winner = None\<rparr>"

definition WIN_LINES :: "coord list list" where
  "WIN_LINES =
     [[(0, 0), (0, 1), (0, 2)],
      [(1, 0), (1, 1), (1, 2)],
      [(2, 0), (2, 1), (2, 2)],
      [(0, 0), (1, 0), (2, 0)],
      [(0, 1), (1, 1), (2, 1)],
      [(0, 2), (1, 2), (2, 2)],
      [(0, 0), (1, 1), (2, 2)],
      [(0, 2), (1, 1), (2, 0)]]"

section \<open>Python list indexing\<close>

text \<open>
  \<open>xs[i]\<close> for an integer \<open>i\<close>: a negative index counts from the end, and a position
  outside the list raises \<open>IndexError\<close>. \<open>py_index n i\<close> is the position read in a
  list of length \<open>n\<close>, if there is one.
\<close>

definition py_index :: "nat \<Rightarrow> int \<Rightarrow> nat option" where
  "py_index n i =
     (if 0 \<le> i then (if i < int n then Some (nat i) else None)
      else (if 0 \<le> int n + i then Some (nat (int n + i)) else None))"

definition py_get :: "'a list \<Rightarrow> int \<Rightarrow> py_error + 'a" where
  "py_get xs i = (case py_index (length xs) i of None \<Rightarrow> Inl IndexError | Some k \<Rightarrow> Inr (xs ! k))"

text \<open>\<open>self.board[row][col]\<close>, read and written.\<close>

definition board_get :: "grid \<Rightarrow> int \<Rightarrow> int \<Rightarrow> py_error + Cell" where
  "board_get b row col = (case py_get b row of Inl e \<Rightarrow> Inl e | Inr line \<Rightarrow> py_get line col)"

definition board_set :: "grid \<Rightarrow> int \<Rightarrow> int \<Rightarrow> Cell \<Rightarrow> py_error + grid" where
  "board_set b row col v =
     (case py_index (length b) row of
        None \<Rightarrow> Inl IndexError
      | Some i \<Rightarrow>
          (case py_index (length (b ! i)) col of
             None \<Rightarrow> Inl IndexError
           | Some j \<Rightarrow> Inr (b[i := (b ! i)[j := v]])))"

text \<open>\<open>xs.index(v)\<close>: the first position of \<open>v\<close>, \<open>ValueError\<close> when there is none.\<close>

fun py_list_index :: "'a list \<Rightarrow> 'a \<Rightarrow> py_error + nat" where
  "py_list_index [] v = Inl ValueError"
| "py_list_index (x # xs) v =
     (if x = v then Inr 0
      else (case py_list_index xs v of Inl e \<Rightarrow> Inl e | Inr k \<Rightarrow> Inr (Suc k)))"

section \<open>The state machine\<close>

text \<open>
  \<open>all(p(self.board[r][c]) for r, c in cells)\<close>: the generator is consumed left to right
  and \<open>all\<close> stops at the first cell that fails \<open>p\<close>, so a later cell is not read.
\<close>

fun all_cells :: "grid \<Rightarrow> (Cell \<Rightarrow> bool) \<Rightarrow> coord list \<Rightarrow> py_error + bool" where
  "all_cells b p [] = Inr True"
| "all_cells b p ((r, c) # rest) =
     (case board_get b r c of
        Inl e \<Rightarrow> Inl e
      | Inr v \<Rightarrow> if p v then all_cells b p rest else Inr False)"

fun check_winner_lines :: "grid \<Rightarrow> Cell \<Rightarrow> coord list list \<Rightarrow> py_error + bool" where
  "check_winner_lines b cell [] = Inr False"
| "check_winner_lines b cell (line # rest) =
     (case all_cells b (\<lambda>v. v = cell) line of
        Inl e \<Rightarrow> Inl e
      | Inr True \<Rightarrow> Inr True
      | Inr False \<Rightarrow> check_winner_lines b cell rest)"

definition check_winner :: "TicTacToe \<Rightarrow> Cell \<Rightarrow> py_error + bool" where
  "check_winner g cell = check_winner_lines (board g) cell WIN_LINES"

definition all_coords :: "coord list" where
  "all_coords = concat (map (\<lambda>r. map (\<lambda>c. (r, c)) [0, 1, 2]) [0, 1, 2])"

definition check_draw :: "TicTacToe \<Rightarrow> py_error + bool" where
  "check_draw g = all_cells (board g) (\<lambda>v. v \<noteq> Cell_EMPTY) all_coords"

text \<open>
  \<open>make_move\<close> mutates \<open>self\<close>: the model returns the outcome of the call (the boolean
  returned, or the exception raised) together with the state the call leaves behind.
  An exception does not undo the assignment to the cell that precedes it.
\<close>

definition make_move :: "TicTacToe \<Rightarrow> int \<Rightarrow> int \<Rightarrow> Cell \<Rightarrow> (py_error + bool) \<times> TicTacToe" where
  "make_move g row col player_cell =
     (if game_over g then (Inr False, g)
      else case board_get (board g) row col of
        Inl e \<Rightarrow> (Inl e, g)
      | Inr v \<Rightarrow>
          if v \<noteq> Cell_EMPTY then (Inr False, g)
          else if player_cell \<noteq> current_turn g then (Inr False, g)
          else (case board_set (board g) row col player_cell of
            Inl e \<Rightarrow> (Inl e, g)
          | Inr b' \<Rightarrow>
              let g1 = g\<lparr>board := b'\<rparr> in
              (case check_winner g1 player_cell of
                 Inl e \<Rightarrow> (Inl e, g1)
               | Inr True \<Rightarrow> (Inr True, g1\<lparr>game_over := True, winner := Some player_cell\<rparr>)
               | Inr False \<Rightarrow>
                   (case check_draw g1 of
                      Inl e \<Rightarrow> (Inl e, g1)
                    | Inr True \<Rightarrow> (Inr True, g1\<lparr>game_over := True, winner := None\<rparr>)
                    | Inr False \<Rightarrow>
                        (Inr True,
                         g1\<lparr>current_turn := (if current_turn g1 = Cell_X then Cell_O else Cell_X)\<rparr>)))))"

text \<open>
  A sequence of calls, each of which must be accepted: the game after the last one,
  or \<open>None\<close> as soon as one call is rejected or raises.
\<close>

fun play :: "TicTacToe \<Rightarrow> (int \<times> int \<times> Cell) list \<Rightarrow> TicTacToe option" where
  "play g [] = Some g"
| "play g ((r, c, m) # ms) =
     (case make_move g r c m of
        (Inr True, g') \<Rightarrow> play g' ms
      | _ \<Rightarrow> None)"

text \<open>
  A fresh game is \<open>TicTacToe()\<close> with any player bindings and any vs-bot flag: the
  caller binds the players after construction and before the first move.
\<close>

definition fresh :: "TicTacToe \<Rightarrow> bool" where
  "fresh g \<longleftrightarrow>
     board g = board new_game \<and> current_turn g = Cell_X \<and> \<not> game_over g \<and> winner g = None"

section \<open>The move selector\<close>

fun cells_in_line :: "grid \<Rightarrow> coord list \<Rightarrow> py_error + Cell list" where
  "cells_in_line b [] = Inr []"
| "cells_in_line b ((r, c) # rest) =
     (case board_get b r c of
        Inl e \<Rightarrow> Inl e
      | Inr v \<Rightarrow> (case cells_in_line b rest of Inl e \<Rightarrow> Inl e | Inr vs \<Rightarrow> Inr (v # vs)))"

fun find_winning_move_lines :: "grid \<Rightarrow> Cell \<Rightarrow> coord list list \<Rightarrow> py_error + coord option" where
  "find_winning_move_lines b cell [] = Inr None"
| "find_winning_move_lines b cell (line # rest) =
     (case cells_in_line b line of
        Inl e \<Rightarrow> Inl e
      | Inr vs \<Rightarrow>
          if count_list vs cell = 2 \<and> count_list vs Cell_EMPTY = 1
          then (case py_list_index vs Cell_EMPTY of
                  Inl e \<Rightarrow> Inl e
                | Inr idx \<Rightarrow> (case py_get line (int idx) of Inl e \<Rightarrow> Inl e | Inr p \<Rightarrow> Inr (Some p)))
          else find_winning_move_lines b cell rest)"

definition find_winning_move :: "TicTacToe \<Rightarrow> Cell \<Rightarrow> py_error + coord option" where
  "find_winning_move g cell = find_winning_move_lines (board g) cell WIN_LINES"

text \<open>The loops \<open>for r, c in corners\<close> and \<open>for r, c in edges\<close>: the first empty cell.\<close>

fun first_empty :: "grid \<Rightarrow> coord list \<Rightarrow> py_error + coord option" where
  "first_empty b [] = Inr None"
| "first_empty b ((r, c) # rest) =
     (case board_get b r c of
        Inl e \<Rightarrow> Inl e
      | Inr v \<Rightarrow> if v = Cell_EMPTY then Inr (Some (r, c)) else first_empty b rest)"

definition corners :: "coord list" where
  "corners = [(0, 0), (0, 2), (2, 0), (2, 2)]"

definition edges :: "coord list" where
  "edges = [(0, 1), (1, 0), (1, 2), (2, 1)]"

text \<open>
  \<open>random.shuffle\<close> permutes the local lists \<open>corners\<close> and \<open>edges\<close> in place. The order
  it leaves is not determined by the game, so it is an argument of the model: \<open>cs\<close> is
  \<open>corners\<close> after the shuffle and \<open>es\<close> is \<open>edges\<close> after the shuffle. A tuple of two
  integers is truthy, so \<open>if move:\<close> asks whether a move was found. As for
  \<open>make_move\<close>, the result pairs the outcome with the state after the call.
\<close>

definition bot_move ::
  "TicTacToe \<Rightarrow> coord list \<Rightarrow> coord list \<Rightarrow> (py_error + coord option) \<times> TicTacToe" where
  "bot_move g cs es =
     (if game_over g \<or> current_turn g \<noteq> Cell_O then (Inr None, g)
      else case find_winning_move g Cell_O of
        Inl e \<Rightarrow> (Inl e, g)
      | Inr (Some mv) \<Rightarrow> (Inr (Some mv), g)
      | Inr None \<Rightarrow>
          (case find_winning_move g Cell_X of
             Inl e \<Rightarrow> (Inl e, g)
           | Inr (Some mv) \<Rightarrow> (Inr (Some mv), g)
           | Inr None \<Rightarrow>
               (case board_get (board g) 1 1 of
                  Inl e \<Rightarrow> (Inl e, g)
                | Inr v \<Rightarrow>
                    if v = Cell_EMPTY then (Inr (Some (1, 1)), g)
                    else (case first_empty (board g) cs of
                      Inl e \<Rightarrow> (Inl e, g)
                    | Inr (Some p) \<Rightarrow> (Inr (Some p), g)
                    | Inr None \<Rightarrow>
                        (case first_empty (board g) es of
                           Inl e \<Rightarrow> (Inl e, g)
                         | Inr (Some p) \<Rightarrow> (Inr (Some p), g)
                         | Inr None \<Rightarrow> (Inr None, g))))))"

section \<open>Vocabulary of the properties\<close>

text \<open>
  The shape the default factory gives the board and every accepted move keeps: three
  rows of three cells. \<open>in_grid\<close> holds of a coordinate whose row and column are in
  \<open>[0, 2]\<close>.
\<close>

definition wf_board :: "grid \<Rightarrow> bool" where
  "wf_board b \<longleftrightarrow> length b = 3 \<and> (\<forall>line \<in> set b. length line = 3)"

definition in_grid :: "coord \<Rightarrow> bool" where
  "in_grid p \<longleftrightarrow> 0 \<le> fst p \<and> fst p \<le> 2 \<and> 0 \<le> snd p \<and> snd p \<le> 2"

text \<open>
  A line is owned by a mark when the mark occupies each of its cells; a board has a line
  for a mark when one of the eight winning lines is owned by it; a board is full when
  each of the nine cells holds a mark other than \<open>Cell.EMPTY\<close>.
\<close>

definition line_owned :: "grid \<Rightarrow> Cell \<Rightarrow> coord list \<Rightarrow> bool" where
  "line_owned b m line \<longleftrightarrow> (\<forall>(r, c) \<in> set line. board_get b r c = Inr m)"

definition has_line :: "grid \<Rightarrow> Cell \<Rightarrow> bool" where
  "has_line b m \<longleftrightarrow> (\<exists>line \<in> set WIN_LINES. line_owned b m line)"

definition board_full :: "grid \<Rightarrow> bool" where
  "board_full b \<longleftrightarrow> (\<forall>(r, c) \<in> set all_coords. board_get b r c \<in> {Inr Cell_X, Inr Cell_O})"

text \<open>
  The number of cells that hold a mark; whether one of the eight winning lines is owned
  by \<open>Cell.X\<close> or by \<open>Cell.O\<close>, that is, is monochromatic and not empty.
\<close>

definition count_mark :: "grid \<Rightarrow> Cell \<Rightarrow> nat" where
  "count_mark b m = sum_list (map (\<lambda>line. count_list line m) b)"

definition mono_line :: "grid \<Rightarrow> bool" where
  "mono_line b \<longleftrightarrow> (\<exists>line \<in> set WIN_LINES. \<exists>m \<in> {Cell_X, Cell_O}. line_owned b m line)"

text \<open>
  Two invariants of play. The marks are balanced when X has as many cells as O, or
  one more, and while the game goes on the turn says which. A game is undecided when,
  as long as it is not over, it has no winner and no monochromatic line.
\<close>

definition balanced :: "TicTacToe \<Rightarrow> bool" where
  "balanced g \<longleftrightarrow>
     (let nx = count_mark (board g) Cell_X; no = count_mark (board g) Cell_O in
      if game_over g then nx = no \<or> nx = no + 1
      else (current_turn g = Cell_X \<and> nx = no) \<or> (current_turn g = Cell_O \<and> nx = no + 1))"

definition undecided :: "TicTacToe \<Rightarrow> bool" where
  "undecided g \<longleftrightarrow> (\<not> game_over g \<longrightarrow> winner g = None \<and> \<not> mono_line (board g))"

text \<open>
  For the move selector. A cell is blank when it holds \<open>Cell.EMPTY\<close>. A line is ready
  for a mark when one of its cells is blank and the mark occupies its other cells: two
  cells of the mark and the third empty. \<open>winning_cell\<close> is the blank cell of the first
  ready line in the order of \<open>WIN_LINES\<close>: rows from the top, columns from the left,
  then the two diagonals. A board has an empty cell when one of the nine cells is blank.
  Every winning line consists of three distinct cells of the grid.
\<close>

definition blank :: "grid \<Rightarrow> coord \<Rightarrow> bool" where
  "blank b p \<longleftrightarrow> board_get b (fst p) (snd p) = Inr Cell_EMPTY"

definition line_ready :: "grid \<Rightarrow> Cell \<Rightarrow> coord list \<Rightarrow> bool" where
  "line_ready b m line \<longleftrightarrow>
     (\<exists>p \<in> set line. blank b p \<and> (\<forall>q \<in> set line. q \<noteq> p \<longrightarrow> board_get b (fst q) (snd q) = Inr m))"

definition winning_cell :: "grid \<Rightarrow> Cell \<Rightarrow> coord option" where
  "winning_cell b m =
     (case find (line_ready b m) WIN_LINES of None \<Rightarrow> None | Some line \<Rightarrow> find (blank b) line)"

definition has_empty :: "grid \<Rightarrow> bool" where
  "has_empty b \<longleftrightarrow> (\<exists>p \<in> set all_coords. blank b p)"

definition three_cells :: "coord list \<Rightarrow> bool" where
  "three_cells line \<longleftrightarrow> length line = 3 \<and> distinct line \<and> (\<forall>q \<in> set line. in_grid q)"

text \<open>
  The state after a sequence of \<open>make_move\<close> calls, whatever each of them returns
  or raises.
\<close>

fun run_calls :: "TicTacToe \<Rightarrow> (int \<times> int \<times> Cell) list \<Rightarrow> TicTacToe" where
  "run_calls g [] = g"
| "run_calls g ((r, c, m) # rest) = run_calls (snd (make_move g r c m)) rest"

text \<open>
  Two states of one game: after X (0,0), O (1,1), X (0,1), O (2,2), and after the
  further move X (0,2) that completes the top row.
\<close>

definition scenario_game :: TicTacToe where
  "scenario_game =
     \<lparr>board = [[Cell_X, Cell_X, Cell_EMPTY],
               [Cell_EMPTY, Cell_O, Cell_EMPTY],
               [Cell_EMPTY, Cell_EMPTY, Cell_O]],
      player_x = None, player_o = None,
      current_turn = Cell_X, is_vs_bot = False, game_over = False, winner = None\<rparr>"

definition won_game :: TicTacToe where
  "won_game =
     \<lparr>board = [[Cell_X, Cell_X, Cell_X],
               [Cell_EMPTY, Cell_O, Cell_EMPTY],
               [Cell_EMPTY, Cell_EMPTY, Cell_O]],
      player_x = None, player_o = None,
      current_turn = Cell_X, is_vs_bot = False, game_over = True, winner = Some Cell_X\<rparr>"

text \<open>
  Two games with O to move: one where O can complete the top row while X threatens the
  middle row, and one where X holds the centre and nothing else is played.
\<close>

definition bot_game :: TicTacToe where
  "bot_game =
     \<lparr>board = [[Cell_O, Cell_O, Cell_EMPTY],
               [Cell_X, Cell_X, Cell_EMPTY],
               [Cell_X, Cell_EMPTY, Cell_EMPTY]],
      player_x = None, player_o = None,
      current_turn = Cell_O, is_vs_bot = True, game_over = False, winner = None\<rparr>"

definition center_game :: TicTacToe where
  "center_game =
     \<lparr>board = [[Cell_EMPTY, Cell_EMPTY, Cell_EMPTY],
               [Cell_EMPTY, Cell_X, Cell_EMPTY],
               [Cell_EMPTY, Cell_EMPTY, Cell_EMPTY]],
      player_x = None, player_o = None,
      current_turn = Cell_O, is_vs_bot = True, game_over = False, winner = None\<rparr>"

section \<open>Indexing and the checks on a well-formed board\<close>

lemma py_index_Some: "py_index n i = Some k \<Longrightarrow> k < n"
  by (auto simp: py_index_def split: if_splits)

lemma wf_board_row: "wf_board b \<Longrightarrow> i < 3 \<Longrightarrow> length (b ! i) = 3"
  by (simp add: wf_board_def)

lemma board_get_wf:
  assumes "wf_board b" "py_index 3 r = Some i" "py_index 3 c = Some j"
  shows "board_get b r c = Inr (b ! i ! j)"
proof -
  have i: "i < 3" using assms(2) by (rule py_index_Some)
  have "length b = 3" using assms(1) by (simp add: wf_board_def)
  moreover have "length (b ! i) = 3" using assms(1) i by (rule wf_board_row)
  ultimately show ?thesis using assms(2,3) by (simp add: board_get_def py_get_def)
qed

lemma board_get_Inr:
  assumes "board_get b r c = Inr v"
  obtains i j where "py_index (length b) r = Some i" "py_index (length (b ! i)) c = Some j"
    "v = b ! i ! j"
  using assms by (auto simp: board_get_def py_get_def split: option.splits)

lemma wf_board_update: "wf_board b \<Longrightarrow> i < 3 \<Longrightarrow> wf_board (b[i := (b ! i)[j := w]])"
  by (auto simp: wf_board_def dest!: set_update_subset_insert [THEN subsetD])

lemma in_grid_index: "in_grid (r, c) \<Longrightarrow> py_index 3 r = Some (nat r) \<and> py_index 3 c = Some (nat c)"
  by (simp add: in_grid_def py_index_def)

lemma board_get_in_grid: "wf_board b \<Longrightarrow> in_grid (r, c) \<Longrightarrow> board_get b r c = Inr (b ! nat r ! nat c)"
  using board_get_wf in_grid_index by blast

lemma all_cells_wf:
  assumes "wf_board b" "\<forall>q \<in> set cs. in_grid q"
  shows "all_cells b p cs = Inr (\<forall>(r, c) \<in> set cs. \<exists>v. board_get b r c = Inr v \<and> p v)"
  using assms(2)
proof (induction cs)
  case Nil
  show ?case by simp
next
  case (Cons q cs)
  obtain r c where q: "q = (r, c)" by (cases q)
  have g: "board_get b r c = Inr (b ! nat r ! nat c)"
    using assms(1) Cons.prems q by (simp add: board_get_in_grid)
  show ?case using Cons g q by simp
qed

lemma WIN_LINES_in_grid: "line \<in> set WIN_LINES \<Longrightarrow> q \<in> set line \<Longrightarrow> in_grid q"
  by (auto simp: WIN_LINES_def in_grid_def)

lemma all_coords_in_grid: "q \<in> set all_coords \<Longrightarrow> in_grid q"
  by (auto simp: all_coords_def in_grid_def)

lemma line_owned_wf:
  assumes "wf_board b" "\<forall>q \<in> set line. in_grid q"
  shows "all_cells b (\<lambda>v. v = m) line = Inr (line_owned b m line)"
  using all_cells_wf [OF assms, of "\<lambda>v. v = m"] by (simp add: line_owned_def)

lemma check_winner_lines_wf:
  assumes "wf_board b" "\<forall>line \<in> set ls. \<forall>q \<in> set line. in_grid q"
  shows "check_winner_lines b m ls = Inr (\<exists>line \<in> set ls. line_owned b m line)"
  using assms(2)
proof (induction ls)
  case Nil
  show ?case by simp
next
  case (Cons l ls)
  have "all_cells b (\<lambda>v. v = m) l = Inr (line_owned b m l)"
    using assms(1) Cons.prems by (simp add: line_owned_wf)
  then show ?case using Cons by (cases "line_owned b m l") simp_all
qed

lemma check_winner_wf: "wf_board (board g) \<Longrightarrow> check_winner g m = Inr (has_line (board g) m)"
  unfolding check_winner_def has_line_def
  by (rule check_winner_lines_wf) (auto dest: WIN_LINES_in_grid)

lemma occupied_iff:
  "(\<exists>v. x = Inr v \<and> v \<noteq> Cell_EMPTY) \<longleftrightarrow> x \<in> {Inr Cell_X, Inr Cell_O :: py_error + Cell}"
proof
  assume "\<exists>v. x = Inr v \<and> v \<noteq> Cell_EMPTY"
  then obtain v where "x = Inr v" "v \<noteq> Cell_EMPTY" by blast
  then show "x \<in> {Inr Cell_X, Inr Cell_O}" by (cases v) simp_all
qed auto

lemma check_draw_wf: "wf_board (board g) \<Longrightarrow> check_draw g = Inr (board_full (board g))"
  unfolding check_draw_def board_full_def occupied_iff [symmetric]
  by (rule all_cells_wf) (auto dest: all_coords_in_grid)

lemma make_move_wf:
  assumes "wf_board (board g)" "in_grid (row, col)"
  shows "make_move g row col m =
     (if game_over g \<or> board_get (board g) row col \<noteq> Inr Cell_EMPTY \<or> m \<noteq> current_turn g
      then (Inr False, g)
      else let b' = (board g)[nat row := (board g ! nat row)[nat col := m]] in
        if has_line b' m then (Inr True, g\<lparr>board := b', game_over := True, winner := Some m\<rparr>)
        else if board_full b' then (Inr True, g\<lparr>board := b', game_over := True, winner := None\<rparr>)
        else (Inr True, g\<lparr>board := b', current_turn := (if current_turn g = Cell_X then Cell_O else Cell_X)\<rparr>))"
proof -
  let ?b = "board g"
  have ix: "py_index 3 row = Some (nat row)" "py_index 3 col = Some (nat col)"
    using assms(2) by (simp_all add: in_grid_index)
  have lt: "nat row < 3" using ix(1) by (rule py_index_Some)
  have len: "length ?b = 3" "length (?b ! nat row) = 3"
    using assms(1) lt by (simp_all add: wf_board_def)
  have get: "board_get ?b row col = Inr (?b ! nat row ! nat col)"
    using assms(1) ix by (rule board_get_wf)
  let ?b' = "?b[nat row := (?b ! nat row)[nat col := m]]"
  have set: "board_set ?b row col m = Inr ?b'"
    using ix len by (simp add: board_set_def)
  have wf': "wf_board ?b'" using assms(1) lt by (rule wf_board_update)
  have cw: "check_winner (g\<lparr>board := ?b'\<rparr>) m = Inr (has_line ?b' m)"
    using wf' by (simp add: check_winner_wf)
  have cd: "check_draw (g\<lparr>board := ?b'\<rparr>) = Inr (board_full ?b')"
    using wf' by (simp add: check_draw_wf)
  show ?thesis
  proof (cases "game_over g \<or> board_get ?b row col \<noteq> Inr Cell_EMPTY \<or> m \<noteq> current_turn g")
    case True
    then show ?thesis unfolding make_move_def using get by auto
  next
    case False
    then have a: "\<not> game_over g" "board_get ?b row col = Inr Cell_EMPTY" "current_turn g = m"
      by auto
    show ?thesis
      unfolding make_move_def Let_def by (simp add: a set cw cd)
  qed
qed

lemma make_move_rejected: "fst (make_move g row col m) = Inr False \<Longrightarrow> make_move g row col m = (Inr False, g)"
  unfolding make_move_def
  by (auto simp: Let_def split: if_splits sum.splits bool.splits)

lemma make_move_terminal: "game_over g \<Longrightarrow> make_move g row col m = (Inr False, g)"
  by (simp add: make_move_def)

lemma run_calls_terminal: "game_over g \<Longrightarrow> run_calls g calls = g"
  by (induction calls) (auto simp: make_move_terminal)

lemma board_get_update:
  assumes "wf_board b" "in_grid (row, col)" "in_grid (r, c)"
  shows "board_get (b[nat row := (b ! nat row)[nat col := m]]) r c =
     (if (r, c) = (row, col) then Inr m else board_get b r c)"
proof -
  let ?b' = "b[nat row := (b ! nat row)[nat col := m]]"
  have lt: "nat row < 3" "nat col < 3" "nat r < 3" "nat c < 3"
    using assms(2,3) by (auto simp: in_grid_def)
  have wf': "wf_board ?b'" using assms(1) lt(1) by (rule wf_board_update)
  have len: "length b = 3" "length (b ! nat row) = 3"
    using assms(1) lt by (simp_all add: wf_board_def)
  have eq: "r = row \<longleftrightarrow> nat r = nat row" "c = col \<longleftrightarrow> nat c = nat col"
    using assms(2,3) by (auto simp: in_grid_def)
  have "?b' ! nat r ! nat c = (if (r, c) = (row, col) then m else b ! nat r ! nat c)"
    using lt len eq by (auto simp: nth_list_update)
  then show ?thesis
    using board_get_in_grid [OF wf' assms(3)] board_get_in_grid [OF assms(1,3)] by simp
qed

lemma make_move_bindings:
  "player_x (snd (make_move g row col m)) = player_x g \<and>
   player_o (snd (make_move g row col m)) = player_o g \<and>
   is_vs_bot (snd (make_move g row col m)) = is_vs_bot g"
  unfolding make_move_def by (simp add: Let_def split: sum.split bool.split)

lemma scenario_facts:
  "wf_board (board scenario_game)" "\<not> game_over scenario_game"
  "current_turn scenario_game = Cell_X"
  "board_get (board scenario_game) 0 2 = Inr Cell_EMPTY"
  "board_get (board scenario_game) 1 1 = Inr Cell_O"
  by (simp_all add: scenario_game_def wf_board_def board_get_def py_get_def py_index_def)

section \<open>Accepted moves and the invariants of play\<close>

lemma board_get_norm:
  assumes "py_index (length b) r = Some i" "py_index (length (b ! i)) c = Some j"
  shows "board_get b r c = Inr (b ! i ! j)"
  using assms by (simp add: board_get_def py_get_def)

lemma py_index_int: "k < n \<Longrightarrow> py_index n (int k) = Some k"
  by (simp add: py_index_def)

text \<open>A negative index names a cell that a non-negative index names as well.\<close>

lemma make_move_norm:
  assumes "py_index (length (board g)) r = Some i" "py_index (length (board g ! i)) c = Some j"
  shows "make_move g r c m = make_move g (int i) (int j) m"
proof -
  have i: "py_index (length (board g)) (int i) = Some i"
    using assms(1) by (simp add: py_index_int py_index_Some)
  have j: "py_index (length (board g ! i)) (int j) = Some j"
    using assms(2) by (simp add: py_index_int py_index_Some)
  have g: "board_get (board g) r c = board_get (board g) (int i) (int j)"
    using assms i j by (simp add: board_get_norm)
  have s: "board_set (board g) r c m = board_set (board g) (int i) (int j) m"
    using assms i j by (simp add: board_set_def)
  show ?thesis unfolding make_move_def g s ..
qed

lemma make_move_True_guards:
  assumes "fst (make_move g r c m) = Inr True"
  shows "\<not> game_over g \<and> board_get (board g) r c = Inr Cell_EMPTY \<and> m = current_turn g"
proof -
  have "\<not> game_over g" using assms by (auto simp: make_move_def)
  moreover obtain v where v: "board_get (board g) r c = Inr v"
    using assms \<open>\<not> game_over g\<close> by (cases "board_get (board g) r c") (auto simp: make_move_def)
  moreover have "v = Cell_EMPTY" "m = current_turn g"
    using assms \<open>\<not> game_over g\<close> v by (auto simp: make_move_def split: if_splits)
  ultimately show ?thesis by simp
qed

lemma accepted_in_grid:
  assumes "wf_board (board g)" "fst (make_move g r c m) = Inr True"
  obtains row col where "in_grid (row, col)" "make_move g r c m = make_move g row col m"
proof -
  from make_move_True_guards [OF assms(2)]
  have "board_get (board g) r c = Inr Cell_EMPTY" by simp
  then obtain i j where ij: "py_index (length (board g)) r = Some i"
      "py_index (length (board g ! i)) c = Some j"
    by (rule board_get_Inr)
  have "i < 3" using ij(1) assms(1) by (auto simp: wf_board_def dest: py_index_Some)
  moreover have "j < 3"
    using ij(2) assms(1) \<open>i < 3\<close> by (auto simp: wf_board_def dest: py_index_Some)
  ultimately have "in_grid (int i, int j)" by (simp add: in_grid_def)
  moreover have "make_move g r c m = make_move g (int i) (int j) m"
    using ij by (rule make_move_norm)
  ultimately show ?thesis by (rule that)
qed

text \<open>What an accepted call does, on a well-formed board.\<close>

lemma accepted_step:
  assumes "wf_board (board g)" "make_move g r c m = (Inr True, g')"
  obtains row col b' where "in_grid (row, col)" "\<not> game_over g"
    "board_get (board g) row col = Inr Cell_EMPTY" "m = current_turn g"
    "b' = (board g)[nat row := (board g ! nat row)[nat col := m]]"
    "g' = (if has_line b' m then g\<lparr>board := b', game_over := True, winner := Some m\<rparr>
           else if board_full b' then g\<lparr>board := b', game_over := True, winner := None\<rparr>
           else g\<lparr>board := b', current_turn := (if m = Cell_X then Cell_O else Cell_X)\<rparr>)"
proof -
  have acc: "fst (make_move g r c m) = Inr True" using assms(2) by simp
  from accepted_in_grid [OF assms(1) acc] obtain row col
    where rc: "in_grid (row, col)" "make_move g r c m = make_move g row col m" by blast
  have mm: "make_move g row col m = (Inr True, g')" using rc(2) assms(2) by simp
  then have "fst (make_move g row col m) = Inr True" by simp
  from make_move_True_guards [OF this]
  have gd: "\<not> game_over g" "board_get (board g) row col = Inr Cell_EMPTY" "current_turn g = m"
    by simp_all
  define b' where "b' = (board g)[nat row := (board g ! nat row)[nat col := m]]"
  have "make_move g row col m =
     (if has_line b' m then (Inr True, g\<lparr>board := b', game_over := True, winner := Some m\<rparr>)
      else if board_full b' then (Inr True, g\<lparr>board := b', game_over := True, winner := None\<rparr>)
      else (Inr True, g\<lparr>board := b', current_turn := (if m = Cell_X then Cell_O else Cell_X)\<rparr>))"
    unfolding b'_def
    by (subst make_move_wf [OF assms(1) rc(1)]) (simp add: gd Let_def)
  then have "g' = (if has_line b' m then g\<lparr>board := b', game_over := True, winner := Some m\<rparr>
           else if board_full b' then g\<lparr>board := b', game_over := True, winner := None\<rparr>
           else g\<lparr>board := b', current_turn := (if m = Cell_X then Cell_O else Cell_X)\<rparr>)"
    unfolding mm by (cases "has_line b' m"; cases "board_full b'") simp_all
  with rc(1) gd(1,2) gd(3) [symmetric] b'_def show ?thesis by (rule that)
qed

lemma play_invariant:
  assumes "P g" "play g ms = Some g'"
    and step: "\<And>h r c m h'. P h \<Longrightarrow> make_move h r c m = (Inr True, h') \<Longrightarrow> P h'"
  shows "P g'"
  using assms(1,2)
proof (induction ms arbitrary: g)
  case Nil
  then show ?case by simp
next
  case (Cons a ms)
  obtain r c m where a: "a = (r, c, m)" by (cases a)
  obtain out h where mm: "make_move g r c m = (out, h)" by (cases "make_move g r c m")
  from Cons.prems(2) a mm have "out = Inr True" "play h ms = Some g'"
    by (auto split: sum.splits bool.splits)
  moreover have "P h" using step [OF Cons.prems(1)] mm \<open>out = Inr True\<close> by simp
  ultimately show ?case using Cons.IH by blast
qed

lemma wf_board_step:
  assumes "wf_board (board g)" "make_move g r c m = (Inr True, g')"
  shows "wf_board (board g')"
proof -
  from accepted_step [OF assms] obtain row col b' where s: "in_grid (row, col)"
    "b' = (board g)[nat row := (board g ! nat row)[nat col := m]]"
    "g' = (if has_line b' m then g\<lparr>board := b', game_over := True, winner := Some m\<rparr>
           else if board_full b' then g\<lparr>board := b', game_over := True, winner := None\<rparr>
           else g\<lparr>board := b', current_turn := (if m = Cell_X then Cell_O else Cell_X)\<rparr>)"
    by metis
  have "nat row < 3" using s(1) by (auto simp: in_grid_def)
  then have "wf_board b'" unfolding s(2) using assms(1) by (simp add: wf_board_update)
  moreover have "board g' = b'" unfolding s(3) by simp
  ultimately show ?thesis by simp
qed

lemma fresh_wf: "fresh g \<Longrightarrow> wf_board (board g)"
  by (simp add: fresh_def new_game_def wf_board_def)

lemma turn_step:
  assumes "wf_board (board g)" "current_turn g \<noteq> Cell_EMPTY" "make_move g r c m = (Inr True, g')"
  shows "current_turn g' \<noteq> Cell_EMPTY"
proof -
  from accepted_step [OF assms(1,3)] obtain b' where
    "g' = (if has_line b' m then g\<lparr>board := b', game_over := True, winner := Some m\<rparr>
           else if board_full b' then g\<lparr>board := b', game_over := True, winner := None\<rparr>
           else g\<lparr>board := b', current_turn := (if m = Cell_X then Cell_O else Cell_X)\<rparr>)"
    by metis
  then show ?thesis using assms(2) by simp
qed

lemma play_turn:
  assumes "fresh g0" "play g0 ms = Some g"
  shows "wf_board (board g) \<and> current_turn g \<noteq> Cell_EMPTY"
proof (rule play_invariant [where P = "\<lambda>g. wf_board (board g) \<and> current_turn g \<noteq> Cell_EMPTY", OF _ assms(2)])
  show "wf_board (board g0) \<and> current_turn g0 \<noteq> Cell_EMPTY"
    using assms(1) fresh_wf by (simp add: fresh_def)
next
  fix h r c m h'
  assume "wf_board (board h) \<and> current_turn h \<noteq> Cell_EMPTY" "make_move h r c m = (Inr True, h')"
  then show "wf_board (board h') \<and> current_turn h' \<noteq> Cell_EMPTY"
    using wf_board_step turn_step by blast
qed

lemma make_move_wrong_mark:
  assumes "m \<noteq> current_turn g"
  shows "snd (make_move g row col m) = g \<and> fst (make_move g row col m) \<noteq> Inr True"
  using assms unfolding make_move_def
  by (cases "board_get (board g) row col") simp_all

lemma count_list_update:
  assumes "j < length xs" "xs ! j = Cell_EMPTY" "k \<noteq> Cell_EMPTY"
  shows "count_list (xs[j := m]) k = count_list xs k + (if m = k then 1 else 0)"
  using assms
proof (induction xs arbitrary: j)
  case Nil
  then show ?case by simp
next
  case (Cons x xs)
  then show ?case by (cases j) auto
qed

lemma count_mark_update:
  assumes "i < length b" "j < length (b ! i)" "b ! i ! j = Cell_EMPTY" "k \<noteq> Cell_EMPTY"
  shows "count_mark (b[i := (b ! i)[j := m]]) k = count_mark b k + (if m = k then 1 else 0)"
  using assms(1,2,3)
proof (induction b arbitrary: i)
  case Nil
  then show ?case by simp
next
  case (Cons line b)
  show ?case
  proof (cases i)
    case 0
    then show ?thesis
      using Cons.prems count_list_update [of j line k m] assms(4) by (simp add: count_mark_def)
  next
    case (Suc i')
    then show ?thesis
      using Cons.prems Cons.IH [of i'] by (simp add: count_mark_def)
  qed
qed

lemma balanced_step:
  assumes "wf_board (board g)" "balanced g" "make_move g r c m = (Inr True, g')"
  shows "balanced g'"
proof -
  from accepted_step [OF assms(1,3)] obtain row col b' where s:
    "in_grid (row, col)" "\<not> game_over g" "board_get (board g) row col = Inr Cell_EMPTY"
    "m = current_turn g" "b' = (board g)[nat row := (board g ! nat row)[nat col := m]]"
    "g' = (if has_line b' m then g\<lparr>board := b', game_over := True, winner := Some m\<rparr>
           else if board_full b' then g\<lparr>board := b', game_over := True, winner := None\<rparr>
           else g\<lparr>board := b', current_turn := (if m = Cell_X then Cell_O else Cell_X)\<rparr>)"
    by metis
  have lt: "nat row < 3" "nat col < 3" using s(1) by (auto simp: in_grid_def)
  have len: "nat row < length (board g)" "nat col < length (board g ! nat row)"
    using assms(1) lt by (simp_all add: wf_board_def)
  have e: "board g ! nat row ! nat col = Cell_EMPTY"
    using board_get_in_grid [OF assms(1) s(1)] s(3) by simp
  have cnt: "count_mark b' k = count_mark (board g) k + (if m = k then 1 else 0)"
    if "k \<noteq> Cell_EMPTY" for k
    unfolding s(5) using len e that by (rule count_mark_update)
  have b: "board g' = b'" unfolding s(6) by simp
  have go: "game_over g' \<longleftrightarrow> has_line b' m \<or> board_full b'"
    unfolding s(6) using s(2) by simp
  have ct: "current_turn g' = (if m = Cell_X then Cell_O else Cell_X)" if "\<not> game_over g'"
  proof -
    from that go have "\<not> has_line b' m" "\<not> board_full b'" by simp_all
    then show ?thesis by (subst s(6)) simp
  qed
  from assms(2) s(2,4) have "(m = Cell_X \<and> count_mark (board g) Cell_X = count_mark (board g) Cell_O)
     \<or> (m = Cell_O \<and> count_mark (board g) Cell_X = count_mark (board g) Cell_O + 1)"
    by (simp add: balanced_def Let_def)
  then show ?thesis
    unfolding balanced_def Let_def b using ct by (auto simp: cnt)
qed

lemma play_balanced:
  assumes "fresh g0" "play g0 ms = Some g"
  shows "wf_board (board g) \<and> balanced g"
proof (rule play_invariant [where P = "\<lambda>g. wf_board (board g) \<and> balanced g", OF _ assms(2)])
  have "balanced g0"
    using assms(1) by (simp add: fresh_def new_game_def balanced_def count_mark_def)
  then show "wf_board (board g0) \<and> balanced g0" using assms(1) fresh_wf by simp
next
  fix h r c m h'
  assume "wf_board (board h) \<and> balanced h" "make_move h r c m = (Inr True, h')"
  then show "wf_board (board h') \<and> balanced h'"
    using wf_board_step balanced_step by blast
qed

lemma line_owned_before:
  assumes "wf_board b" "in_grid (row, col)" "\<forall>q \<in> set line. in_grid q" "k \<noteq> m"
    "line_owned (b[nat row := (b ! nat row)[nat col := m]]) k line"
  shows "line_owned b k line"
  unfolding line_owned_def
proof (clarify)
  fix r c assume rc: "(r, c) \<in> set line"
  then have ig: "in_grid (r, c)" using assms(3) by blast
  from assms(5) rc have "board_get (b[nat row := (b ! nat row)[nat col := m]]) r c = Inr k"
    by (auto simp: line_owned_def)
  then show "board_get b r c = Inr k"
    using assms(4) by (simp add: board_get_update [OF assms(1,2) ig] split: if_splits)
qed

lemma mono_line_after:
  assumes "wf_board b" "in_grid (row, col)" "\<not> mono_line b" "m \<noteq> Cell_EMPTY"
  shows "mono_line (b[nat row := (b ! nat row)[nat col := m]]) \<longleftrightarrow>
         has_line (b[nat row := (b ! nat row)[nat col := m]]) m"
proof
  let ?b' = "b[nat row := (b ! nat row)[nat col := m]]"
  assume "mono_line ?b'"
  then obtain line k where l: "line \<in> set WIN_LINES" "k \<in> {Cell_X, Cell_O}" "line_owned ?b' k line"
    by (auto simp: mono_line_def)
  show "has_line ?b' m"
  proof (cases "k = m")
    case True
    then show ?thesis using l by (auto simp: has_line_def)
  next
    case False
    have "\<forall>q \<in> set line. in_grid q" using l(1) WIN_LINES_in_grid by blast
    from line_owned_before [OF assms(1,2) this False l(3)]
    have "mono_line b" using l(1,2) unfolding mono_line_def by blast
    then show ?thesis using assms(3) by simp
  qed
next
  assume "has_line (b[nat row := (b ! nat row)[nat col := m]]) m"
  moreover have "m \<in> {Cell_X, Cell_O}" using assms(4) by (cases m) simp_all
  ultimately show "mono_line (b[nat row := (b ! nat row)[nat col := m]])"
    unfolding mono_line_def has_line_def by blast
qed

lemma accepted_outcome:
  assumes "wf_board (board g)" "current_turn g \<noteq> Cell_EMPTY" "undecided g"
    "make_move g r c m = (Inr True, g')"
  shows "(game_over g' \<and> winner g' \<noteq> None \<longleftrightarrow> mono_line (board g')) \<and>
     (game_over g' \<and> winner g' = None \<longleftrightarrow> board_full (board g') \<and> \<not> mono_line (board g')) \<and>
     (mono_line (board g') \<longrightarrow> winner g' = Some m \<and> has_line (board g') m) \<and>
     (\<not> game_over g' \<longrightarrow> winner g' = None)"
proof -
  from accepted_step [OF assms(1,4)] obtain row col b' where s:
    "in_grid (row, col)" "\<not> game_over g"
    "m = current_turn g" "b' = (board g)[nat row := (board g ! nat row)[nat col := m]]"
    "g' = (if has_line b' m then g\<lparr>board := b', game_over := True, winner := Some m\<rparr>
           else if board_full b' then g\<lparr>board := b', game_over := True, winner := None\<rparr>
           else g\<lparr>board := b', current_turn := (if m = Cell_X then Cell_O else Cell_X)\<rparr>)"
    by metis
  have u: "winner g = None" "\<not> mono_line (board g)" using assms(3) s(2) by (simp_all add: undecided_def)
  have m: "m \<noteq> Cell_EMPTY" using assms(2) s(3) by simp
  have ml: "mono_line b' \<longleftrightarrow> has_line b' m"
    unfolding s(4) using assms(1) s(1) u(2) m by (rule mono_line_after)
  show ?thesis
  proof (cases "has_line b' m")
    case True
    then have "g' = g\<lparr>board := b', game_over := True, winner := Some m\<rparr>" using s(5) by simp
    then show ?thesis using True ml by simp
  next
    case nl: False
    show ?thesis
    proof (cases "board_full b'")
      case True
      then have "g' = g\<lparr>board := b', game_over := True, winner := None\<rparr>" using s(5) nl by simp
      then show ?thesis using True nl ml by simp
    next
      case False
      then have "g' = g\<lparr>board := b', current_turn := (if m = Cell_X then Cell_O else Cell_X)\<rparr>"
        using s(5) nl by simp
      then show ?thesis using False nl ml s(2) u(1) by simp
    qed
  qed
qed

lemma undecided_step:
  assumes "wf_board (board g)" "current_turn g \<noteq> Cell_EMPTY" "undecided g"
    "make_move g r c m = (Inr True, g')"
  shows "undecided g'"
proof -
  from accepted_outcome [OF assms]
  have "game_over g' \<and> winner g' \<noteq> None \<longleftrightarrow> mono_line (board g')"
    "\<not> game_over g' \<longrightarrow> winner g' = None"
    by simp_all
  then show ?thesis unfolding undecided_def by blast
qed

lemma play_undecided:
  assumes "fresh g0" "play g0 ms = Some g"
  shows "wf_board (board g) \<and> current_turn g \<noteq> Cell_EMPTY \<and> undecided g"
proof (rule play_invariant [where P = "\<lambda>g. wf_board (board g) \<and> current_turn g \<noteq> Cell_EMPTY \<and> undecided g", OF _ assms(2)])
  have "\<not> mono_line (board g0)"
    using assms(1)
    by (simp add: fresh_def new_game_def mono_line_def WIN_LINES_def line_owned_def
        board_get_def py_get_def py_index_def)
  then have "undecided g0" using assms(1) by (simp add: undecided_def fresh_def)
  then show "wf_board (board g0) \<and> current_turn g0 \<noteq> Cell_EMPTY \<and> undecided g0"
    using assms(1) fresh_wf by (simp add: fresh_def)
next
  fix h r c m h'
  assume "wf_board (board h) \<and> current_turn h \<noteq> Cell_EMPTY \<and> undecided h"
    "make_move h r c m = (Inr True, h')"
  then show "wf_board (board h') \<and> current_turn h' \<noteq> Cell_EMPTY \<and> undecided h'"
    using wf_board_step turn_step undecided_step by blast
qed

lemma scenario_wins: "make_move scenario_game 0 2 Cell_X = (Inr True, won_game)"
  by code_simp

lemma scenario_play:
  "play new_game [(0, 0, Cell_X), (1, 1, Cell_O), (0, 1, Cell_X), (2, 2, Cell_O)] =
   Some scenario_game"
  by code_simp

section \<open>The scan for a winning cell and the priority chain\<close>

lemma WIN_LINES_three: "line \<in> set WIN_LINES \<Longrightarrow> three_cells line"
  by (auto simp: WIN_LINES_def three_cells_def in_grid_def)

lemma three_cellsE:
  assumes "three_cells line"
  obtains p1 p2 p3 where "line = [p1, p2, p3]" "distinct [p1, p2, p3]"
    "in_grid p1" "in_grid p2" "in_grid p3"
proof -
  from assms have "length line = 3" by (simp add: three_cells_def)
  then obtain p1 p2 p3 where l: "line = [p1, p2, p3]"
    by (auto simp: length_Suc_conv numeral_3_eq_3)
  with assms show ?thesis by (intro that [of p1 p2 p3]) (auto simp: three_cells_def)
qed

lemma scan_line:
  assumes g: "board_get b (fst p1) (snd p1) = Inr v1" "board_get b (fst p2) (snd p2) = Inr v2"
      "board_get b (fst p3) (snd p3) = Inr v3"
    and d: "distinct [p1, p2, p3]" and m: "m \<noteq> Cell_EMPTY"
  shows "find_winning_move_lines b m ([p1, p2, p3] # rest) =
     (if line_ready b m [p1, p2, p3] then Inr (find (blank b) [p1, p2, p3])
      else find_winning_move_lines b m rest)"
proof -
  obtain r1 c1 r2 c2 r3 c3 where p: "p1 = (r1, c1)" "p2 = (r2, c2)" "p3 = (r3, c3)"
    by (cases p1, cases p2, cases p3) blast
  have cells: "cells_in_line b [p1, p2, p3] = Inr [v1, v2, v3]"
    using g by (simp add: p)
  have bl: "blank b p1 \<longleftrightarrow> v1 = Cell_EMPTY" "blank b p2 \<longleftrightarrow> v2 = Cell_EMPTY"
    "blank b p3 \<longleftrightarrow> v3 = Cell_EMPTY"
    using g by (simp_all add: blank_def)
  have ready: "line_ready b m [p1, p2, p3] \<longleftrightarrow>
      (v1 = Cell_EMPTY \<and> v2 = m \<and> v3 = m) \<or> (v2 = Cell_EMPTY \<and> v1 = m \<and> v3 = m) \<or>
      (v3 = Cell_EMPTY \<and> v1 = m \<and> v2 = m)"
    using d g unfolding line_ready_def by (auto simp: bl)
  have cnt: "count_list [v1, v2, v3] m = 2 \<and> count_list [v1, v2, v3] Cell_EMPTY = 1 \<longleftrightarrow>
      (v1 = Cell_EMPTY \<and> v2 = m \<and> v3 = m) \<or> (v2 = Cell_EMPTY \<and> v1 = m \<and> v3 = m) \<or>
      (v3 = Cell_EMPTY \<and> v1 = m \<and> v2 = m)"
    using m by auto
  have pick: "(case py_list_index [v1, v2, v3] Cell_EMPTY of Inl e \<Rightarrow> Inl e
       | Inr idx \<Rightarrow> (case py_get [p1, p2, p3] (int idx) of Inl e \<Rightarrow> Inl e | Inr q \<Rightarrow> Inr (Some q))) =
     Inr (find (blank b) [p1, p2, p3])"
    if "Cell_EMPTY \<in> set [v1, v2, v3]"
    using that by (auto simp: bl py_get_def py_index_def)
  show ?thesis
  proof (cases "line_ready b m [p1, p2, p3]")
    case True
    then have "Cell_EMPTY \<in> set [v1, v2, v3]" using ready by auto
    from pick [OF this] True show ?thesis
      using cnt ready by (simp only: find_winning_move_lines.simps cells sum.case if_True)
  next
    case False
    then show ?thesis
      using cnt ready by (simp only: find_winning_move_lines.simps cells sum.case if_False)
  qed
qed

lemma find_winning_move_lines_wf:
  assumes "wf_board b" "m \<noteq> Cell_EMPTY" "\<forall>line \<in> set ls. three_cells line"
  shows "find_winning_move_lines b m ls =
     Inr (case find (line_ready b m) ls of None \<Rightarrow> None | Some line \<Rightarrow> find (blank b) line)"
  using assms(3)
proof (induction ls)
  case Nil
  show ?case by simp
next
  case (Cons line ls)
  then have "three_cells line" by simp
  then obtain p1 p2 p3 where l: "line = [p1, p2, p3]" "distinct [p1, p2, p3]"
    "in_grid p1" "in_grid p2" "in_grid p3"
    by (rule three_cellsE)
  have g: "board_get b (fst p1) (snd p1) = Inr (b ! nat (fst p1) ! nat (snd p1))"
    "board_get b (fst p2) (snd p2) = Inr (b ! nat (fst p2) ! nat (snd p2))"
    "board_get b (fst p3) (snd p3) = Inr (b ! nat (fst p3) ! nat (snd p3))"
    using assms(1) l(3,4,5) by (simp_all add: board_get_in_grid)
  show ?case
    unfolding l(1) scan_line [OF g l(2) assms(2)] using Cons by simp
qed

lemma find_winning_move_wf:
  "wf_board (board g) \<Longrightarrow> m \<noteq> Cell_EMPTY \<Longrightarrow> find_winning_move g m = Inr (winning_cell (board g) m)"
  unfolding find_winning_move_def winning_cell_def
  by (rule find_winning_move_lines_wf) (auto intro: WIN_LINES_three)

lemma first_empty_wf:
  assumes "wf_board b" "\<forall>q \<in> set cs. in_grid q"
  shows "first_empty b cs = Inr (find (blank b) cs)"
  using assms(2)
proof (induction cs)
  case Nil
  show ?case by simp
next
  case (Cons q cs)
  obtain r c where q: "q = (r, c)" by (cases q)
  have "board_get b r c = Inr (b ! nat r ! nat c)"
    using assms(1) Cons.prems q by (simp add: board_get_in_grid)
  then show ?case using Cons q by (simp add: blank_def)
qed

lemma find_unique:
  assumes "p \<in> set xs" "P p" "\<forall>q \<in> set xs. P q \<longrightarrow> q = p"
  shows "find P xs = Some p"
  using assms
proof (induction xs)
  case Nil
  then show ?case by simp
next
  case (Cons x xs)
  show ?case
  proof (cases "P x")
    case True
    then have "x = p" using Cons.prems(3) by fastforce
    then show ?thesis using True by simp
  next
    case False
    then have "p \<in> set xs" using Cons.prems(1,2) by auto
    moreover have "\<forall>q \<in> set xs. P q \<longrightarrow> q = p" using Cons.prems(3) by fastforce
    ultimately have "find P xs = Some p" using Cons.IH Cons.prems(2) by blast
    then show ?thesis using False by simp
  qed
qed

lemma find_SomeD: "find P xs = Some x \<Longrightarrow> x \<in> set xs \<and> P x"
  by (auto simp: find_Some_iff)

lemma line_ready_blank:
  assumes "line_ready b m line" "m \<noteq> Cell_EMPTY" "p \<in> set line" "blank b p"
  shows "find (blank b) line = Some p"
proof -
  from assms(1) obtain p0 where p0: "p0 \<in> set line" "blank b p0"
    "\<forall>q \<in> set line. q \<noteq> p0 \<longrightarrow> board_get b (fst q) (snd q) = Inr m"
    by (auto simp: line_ready_def)
  have "\<forall>q \<in> set line. blank b q \<longrightarrow> q = p0"
    using p0(3) assms(2) by (auto simp: blank_def)
  then have "\<forall>q \<in> set line. blank b q \<longrightarrow> q = p" using assms(3,4) by blast
  with assms(3,4) show ?thesis by (rule find_unique)
qed

lemma winning_cell_Some:
  assumes "winning_cell b m = Some p"
  shows "in_grid p \<and> blank b p"
proof -
  from assms obtain line where l: "find (line_ready b m) WIN_LINES = Some line"
    "find (blank b) line = Some p"
    by (auto simp: winning_cell_def split: option.splits)
  from l(1) have "line \<in> set WIN_LINES" by (auto dest: find_SomeD)
  moreover from l(2) have "p \<in> set line" "blank b p" by (auto dest: find_SomeD)
  ultimately show ?thesis using WIN_LINES_in_grid by blast
qed

lemma all_coords_iff: "p \<in> set all_coords \<longleftrightarrow> in_grid p"
proof
  assume "in_grid p"
  then have "fst p \<in> {0, 1, 2}" "snd p \<in> {0, 1, 2}" by (auto simp: in_grid_def)
  then show "p \<in> set all_coords" by (cases p) (auto simp: all_coords_def)
qed (rule all_coords_in_grid)

lemma in_grid_parts: "in_grid p \<longleftrightarrow> p = (1, 1) \<or> p \<in> set corners \<or> p \<in> set edges"
proof
  assume "in_grid p"
  then have "fst p \<in> {0, 1, 2}" "snd p \<in> {0, 1, 2}" by (auto simp: in_grid_def)
  then show "p = (1, 1) \<or> p \<in> set corners \<or> p \<in> set edges"
    by (cases p) (auto simp: corners_def edges_def)
qed (auto simp: in_grid_def corners_def edges_def)

text \<open>The priority chain on a well-formed board, when it is the turn of O.\<close>

lemma bot_move_wf:
  assumes "wf_board (board g)" "\<not> game_over g" "current_turn g = Cell_O"
    "\<forall>q \<in> set cs. in_grid q" "\<forall>q \<in> set es. in_grid q"
  shows "fst (bot_move g cs es) =
     Inr (case winning_cell (board g) Cell_O of Some mv \<Rightarrow> Some mv | None \<Rightarrow>
          (case winning_cell (board g) Cell_X of Some mv \<Rightarrow> Some mv | None \<Rightarrow>
           if blank (board g) (1, 1) then Some (1, 1)
           else (case find (blank (board g)) cs of Some p \<Rightarrow> Some p | None \<Rightarrow>
                 find (blank (board g)) es)))"
proof -
  have c: "board_get (board g) 1 1 = Inr (board g ! 1 ! 1)"
    using board_get_in_grid [OF assms(1), of 1 1] by (simp add: in_grid_def)
  show ?thesis
    unfolding bot_move_def
    using assms(2,3) c
    by (simp add: find_winning_move_wf [OF assms(1)] first_empty_wf [OF assms(1)] assms(4,5)
        blank_def split: option.split)
qed

section \<open>Properties of \<open>make_move\<close>\<close>

text \<open>
  C1. On a game that is not over, with row and column in \<open>[0, 2]\<close>, an empty target
  cell and the mark of the current turn, \<open>make_move\<close> returns \<open>True\<close> and the cell holds
  the mark. Then, in this order: if the mark owns one of the eight winning lines, the
  game is over with that mark as winner; otherwise, if the board is full, the game is
  over with no winner; otherwise the turn passes to the other mark (\<open>Cell.O\<close> after
  \<open>Cell.X\<close>, \<open>Cell.X\<close> otherwise). No other field changes.
\<close>

theorem make_move_accepted:
  assumes "wf_board (board g)" and "in_grid (row, col)"
    and "\<not> game_over g" and "board_get (board g) row col = Inr Cell_EMPTY"
    and "m = current_turn g"
  shows "\<exists>g'. make_move g row col m = (Inr True, g') \<and>
     board_get (board g') row col = Inr m \<and>
     (if has_line (board g') m
      then g' = g\<lparr>board := board g', game_over := True, winner := Some m\<rparr>
      else if board_full (board g')
      then g' = g\<lparr>board := board g', game_over := True, winner := None\<rparr>
      else g' = g\<lparr>board := board g',
                  current_turn := (if m = Cell_X then Cell_O else Cell_X)\<rparr>)"
proof -
  let ?b' = "(board g)[nat row := (board g ! nat row)[nat col := m]]"
  have w: "board_get ?b' row col = Inr m"
    using assms(1,2) by (simp add: board_get_update)
  show ?thesis
    unfolding make_move_wf [OF assms(1,2)] using assms(3,4,5) w by (simp add: Let_def)
qed

theorem make_move_accepted_witness:
  "wf_board (board scenario_game) \<and> in_grid (0, 2) \<and> \<not> game_over scenario_game \<and>
   board_get (board scenario_game) 0 2 = Inr Cell_EMPTY \<and> Cell_X = current_turn scenario_game \<and>
   (\<exists>g'. make_move scenario_game 0 2 Cell_X = (Inr True, g') \<and>
     board_get (board g') 0 2 = Inr Cell_X \<and>
     (if has_line (board g') Cell_X
      then g' = scenario_game\<lparr>board := board g', game_over := True, winner := Some Cell_X\<rparr>
      else if board_full (board g')
      then g' = scenario_game\<lparr>board := board g', game_over := True, winner := None\<rparr>
      else g' = scenario_game\<lparr>board := board g',
                  current_turn := (if Cell_X = Cell_X then Cell_O else Cell_X)\<rparr>))"
proof -
  have h: "wf_board (board scenario_game)" "in_grid (0, 2)" "\<not> game_over scenario_game"
    "board_get (board scenario_game) 0 2 = Inr Cell_EMPTY" "Cell_X = current_turn scenario_game"
    by (simp_all add: scenario_facts in_grid_def)
  show ?thesis using make_move_accepted [OF h] h by blast
qed

text \<open>
  C3. On a three by three board, with row and column in \<open>[0, 2]\<close> and any mark,
  \<open>make_move\<close> returns a boolean and raises nothing; it returns \<open>False\<close> exactly when the
  game is over, or the target cell is not empty, or the mark is not the one of the
  current turn; a call that returns \<open>False\<close> leaves the whole state as it was, and the
  same call made again returns \<open>False\<close> again, with the same state.
\<close>

theorem make_move_rejection:
  assumes "wf_board (board g)" and "in_grid (row, col)"
  shows "fst (make_move g row col m) \<in> {Inr False, Inr True} \<and>
     (fst (make_move g row col m) = Inr False \<longleftrightarrow>
        game_over g \<or> board_get (board g) row col \<noteq> Inr Cell_EMPTY \<or> m \<noteq> current_turn g) \<and>
     (fst (make_move g row col m) = Inr False \<longrightarrow>
        snd (make_move g row col m) = g \<and>
        make_move (snd (make_move g row col m)) row col m = (Inr False, g))"
proof -
  have "fst (make_move g row col m) \<in> {Inr False, Inr True}"
    unfolding make_move_wf [OF assms] by (simp add: Let_def)
  moreover have "fst (make_move g row col m) = Inr False \<longleftrightarrow>
      game_over g \<or> board_get (board g) row col \<noteq> Inr Cell_EMPTY \<or> m \<noteq> current_turn g"
    unfolding make_move_wf [OF assms] by (simp add: Let_def)
  moreover have "fst (make_move g row col m) = Inr False \<longrightarrow>
      snd (make_move g row col m) = g \<and>
      make_move (snd (make_move g row col m)) row col m = (Inr False, g)"
    using make_move_rejected [of g row col m] by auto
  ultimately show ?thesis by blast
qed

theorem make_move_rejection_witness:
  "wf_board (board scenario_game) \<and> in_grid (1, 1) \<and>
   fst (make_move scenario_game 1 1 Cell_X) = Inr False \<and>
   snd (make_move scenario_game 1 1 Cell_X) = scenario_game \<and>
   make_move (snd (make_move scenario_game 1 1 Cell_X)) 1 1 Cell_X = (Inr False, scenario_game)"
proof -
  have h: "wf_board (board scenario_game)" "in_grid (1, 1)"
    by (simp_all add: scenario_facts in_grid_def)
  show ?thesis
    using make_move_rejection [OF h, of Cell_X] h by (auto simp: scenario_facts)
qed

text \<open>
  C4. Once \<open>game_over\<close> is true, every call of \<open>make_move\<close> returns \<open>False\<close> and changes
  nothing, whatever the row, the column and the mark, also outside \<open>[0, 2]\<close>: the test
  of the flag comes before the board is indexed. So after any sequence of further calls
  the state is the same and the flag is still true.
\<close>

theorem terminal_absorbing:
  assumes "game_over g"
  shows "make_move g row col m = (Inr False, g) \<and> run_calls g calls = g \<and>
     game_over (run_calls g calls)"
  using assms by (simp add: make_move_terminal run_calls_terminal)

theorem terminal_absorbing_witness:
  "game_over won_game \<and>
   make_move won_game 7 (- 9) Cell_O = (Inr False, won_game) \<and>
   run_calls won_game [(0, 0, Cell_X), (5, 5, Cell_O), (1, 0, Cell_X)] = won_game \<and>
   game_over (run_calls won_game [(0, 0, Cell_X), (5, 5, Cell_O), (1, 0, Cell_X)])"
proof -
  have h: "game_over won_game" by (simp add: won_game_def)
  show ?thesis
    using terminal_absorbing [OF h, of 7 "- 9" Cell_O "[(0, 0, Cell_X), (5, 5, Cell_O), (1, 0, Cell_X)]"] h
    by simp
qed

text \<open>
  C10. A call of \<open>make_move\<close>, accepted or not, leaves both player bindings and the
  vs-bot flag as they were. On a three by three board, with row and column in
  \<open>[0, 2]\<close>, the board stays three by three and every cell other than the one at the
  given row and column keeps its content.
\<close>

theorem make_move_frame:
  "player_x (snd (make_move g row col m)) = player_x g \<and>
   player_o (snd (make_move g row col m)) = player_o g \<and>
   is_vs_bot (snd (make_move g row col m)) = is_vs_bot g \<and>
   (wf_board (board g) \<and> in_grid (row, col) \<longrightarrow>
      wf_board (board (snd (make_move g row col m))) \<and>
      (\<forall>r c. in_grid (r, c) \<and> (r, c) \<noteq> (row, col) \<longrightarrow>
         board_get (board (snd (make_move g row col m))) r c = board_get (board g) r c))"
proof -
  have "wf_board (board (snd (make_move g row col m))) \<and>
      (\<forall>r c. in_grid (r, c) \<and> (r, c) \<noteq> (row, col) \<longrightarrow>
         board_get (board (snd (make_move g row col m))) r c = board_get (board g) r c)"
    if wf: "wf_board (board g)" and ig: "in_grid (row, col)"
  proof -
    have lt: "nat row < 3" using ig by (auto simp: in_grid_def)
    have wf': "wf_board ((board g)[nat row := (board g ! nat row)[nat col := m]])"
      using wf lt by (rule wf_board_update)
    show ?thesis
      unfolding make_move_wf [OF wf ig]
      using wf wf' by (auto simp: Let_def board_get_update [OF wf ig])
  qed
  then show ?thesis using make_move_bindings [of g row col m] by blast
qed

theorem make_move_frame_witness:
  "wf_board (board scenario_game) \<and> in_grid (0, 2) \<and> in_grid (1, 1) \<and>
   (1, 1) \<noteq> (0 :: int, 2 :: int) \<and>
   wf_board (board (snd (make_move scenario_game 0 2 Cell_X))) \<and>
   board_get (board (snd (make_move scenario_game 0 2 Cell_X))) 1 1 = Inr Cell_O"
proof -
  have h: "wf_board (board scenario_game)" "in_grid (0, 2)" "in_grid (1, 1)"
    by (simp_all add: scenario_facts in_grid_def)
  show ?thesis
    using make_move_frame [of scenario_game 0 2 Cell_X] h by (simp add: scenario_facts)
qed

section \<open>Properties of play from a fresh game\<close>

text \<open>
  C2. In a game reached from a fresh one by accepted moves, an accepted move leaves the
  game over with a winner if and only if, after the move, one of the eight winning
  lines is monochromatic and not empty; it leaves the game over without a winner if
  and only if the board is full and no line is monochromatic. The check of the code
  looks only at the mark just played: that is enough, since the line is then owned by
  this mark, which is the winner.
\<close>

theorem terminal_iff_line:
  assumes "fresh g0" and "play g0 ms = Some g" and "make_move g r c m = (Inr True, g')"
  shows "(game_over g' \<and> winner g' \<noteq> None \<longleftrightarrow> mono_line (board g')) \<and>
     (game_over g' \<and> winner g' = None \<longleftrightarrow> board_full (board g') \<and> \<not> mono_line (board g')) \<and>
     (mono_line (board g') \<longrightarrow> winner g' = Some m \<and> has_line (board g') m)"
proof -
  from play_undecided [OF assms(1,2)]
  have "wf_board (board g)" "current_turn g \<noteq> Cell_EMPTY" "undecided g" by simp_all
  from accepted_outcome [OF this assms(3)] show ?thesis by blast
qed

theorem terminal_iff_line_witness:
  "fresh new_game \<and>
   play new_game [(0, 0, Cell_X), (1, 1, Cell_O), (0, 1, Cell_X), (2, 2, Cell_O)] = Some scenario_game \<and>
   make_move scenario_game 0 2 Cell_X = (Inr True, won_game) \<and>
   game_over won_game \<and> winner won_game = Some Cell_X \<and> mono_line (board won_game) \<and>
   has_line (board won_game) Cell_X"
proof -
  have f: "fresh new_game" by (simp add: fresh_def new_game_def)
  note p = scenario_play
  have w: "game_over won_game \<and> winner won_game \<noteq> None" by (simp add: won_game_def)
  show ?thesis using terminal_iff_line [OF f p scenario_wins] f p scenario_wins w by blast
qed

text \<open>
  C5. After every sequence of accepted moves from a fresh game, the number of cells
  holding \<open>Cell.X\<close> minus the number of cells holding \<open>Cell.O\<close> is 0 or 1.
\<close>

theorem mark_counts_balanced:
  assumes "fresh g0" and "play g0 ms = Some g"
  shows "int (count_mark (board g) Cell_X) - int (count_mark (board g) Cell_O) \<in> {0, 1}"
proof -
  from play_balanced [OF assms] have "balanced g" by simp
  then have "count_mark (board g) Cell_X = count_mark (board g) Cell_O \<or>
      count_mark (board g) Cell_X = count_mark (board g) Cell_O + 1"
    by (auto simp: balanced_def Let_def split: if_splits)
  then show ?thesis by auto
qed

theorem mark_counts_balanced_witness:
  "fresh new_game \<and>
   play new_game [(0, 0, Cell_X), (1, 1, Cell_O), (0, 1, Cell_X), (2, 2, Cell_O)] = Some scenario_game \<and>
   int (count_mark (board scenario_game) Cell_X) - int (count_mark (board scenario_game) Cell_O) \<in> {0, 1}"
proof -
  have f: "fresh new_game" by (simp add: fresh_def new_game_def)
  note p = scenario_play
  show ?thesis using mark_counts_balanced [OF f p] f p by blast
qed

text \<open>
  C9. In every game reached from a fresh one by accepted moves, the current turn is
  \<open>Cell.X\<close> or \<open>Cell.O\<close>, never \<open>Cell.EMPTY\<close>. Hence \<open>make_move\<close> with the mark
  \<open>Cell.EMPTY\<close> returns \<open>False\<close> for every row and column in \<open>[0, 2]\<close>, and for any
  row and column at all it is never accepted and leaves the state unchanged.
\<close>

theorem turn_never_empty:
  assumes "fresh g0" and "play g0 ms = Some g"
  shows "current_turn g \<in> {Cell_X, Cell_O} \<and>
    (\<forall>row col. in_grid (row, col) \<longrightarrow> make_move g row col Cell_EMPTY = (Inr False, g)) \<and>
    (\<forall>row col. snd (make_move g row col Cell_EMPTY) = g \<and>
                fst (make_move g row col Cell_EMPTY) \<noteq> Inr True)"
proof -
  from play_turn [OF assms] have wf: "wf_board (board g)" and t: "current_turn g \<noteq> Cell_EMPTY"
    by simp_all
  have "current_turn g \<in> {Cell_X, Cell_O}" using t by (cases "current_turn g") simp_all
  moreover have "make_move g row col Cell_EMPTY = (Inr False, g)" if "in_grid (row, col)" for row col
    by (subst make_move_wf [OF wf that]) (use t in auto)
  moreover have "snd (make_move g row col Cell_EMPTY) = g \<and>
      fst (make_move g row col Cell_EMPTY) \<noteq> Inr True" for row col
    using t by (intro make_move_wrong_mark) auto
  ultimately show ?thesis by blast
qed

theorem turn_never_empty_witness:
  "fresh new_game \<and>
   play new_game [(0, 0, Cell_X), (1, 1, Cell_O), (0, 1, Cell_X), (2, 2, Cell_O)] = Some scenario_game \<and>
   in_grid (0, 2) \<and>
   current_turn scenario_game \<in> {Cell_X, Cell_O} \<and>
   make_move scenario_game 0 2 Cell_EMPTY = (Inr False, scenario_game)"
proof -
  have f: "fresh new_game" by (simp add: fresh_def new_game_def)
  note p = scenario_play
  have i: "in_grid (0, 2)" by (simp add: in_grid_def)
  show ?thesis using turn_never_empty [OF f p] f p i by blast
qed

section \<open>Properties of \<open>bot_move\<close>\<close>

text \<open>
  C8. \<open>bot_move\<close> leaves the game as it found it, for every game and every order the
  shuffles produce, also when it raises: board, players, turn, flags and winner are
  those before the call.
\<close>

theorem bot_move_state_unchanged: "snd (bot_move g cs es) = g"
  unfolding bot_move_def
  by (cases "find_winning_move g Cell_O"; cases "find_winning_move g Cell_X";
      cases "board_get (board g) 1 1"; cases "first_empty (board g) cs";
      cases "first_empty (board g) es"; simp split: option.split)

theorem bot_move_state_unchanged_witness:
  "snd (bot_move bot_game corners edges) = bot_game \<and>
   snd (bot_move (new_game\<lparr>board := [[Cell_EMPTY]], current_turn := Cell_O\<rparr>) corners edges) =
     new_game\<lparr>board := [[Cell_EMPTY]], current_turn := Cell_O\<rparr>"
  using bot_move_state_unchanged [of bot_game corners edges]
    bot_move_state_unchanged [of "new_game\<lparr>board := [[Cell_EMPTY]], current_turn := Cell_O\<rparr>" corners edges]
  by simp

text \<open>
  C6. On a three by three board, in a game that is not over with O to move: if some
  winning line has two cells held by O and its third cell empty, then \<open>bot_move\<close>
  returns the empty cell of the first such line in the order rows from the top,
  columns from the left, diagonals. Neither the rest of the board (a line X could
  complete, the centre, the corners, the edges) nor the outcome of the shuffles has a
  say. The statement ranges over all eight lines.
\<close>

theorem bot_move_takes_win:
  assumes "wf_board (board g)" and "\<not> game_over g" and "current_turn g = Cell_O"
    and "\<exists>l \<in> set WIN_LINES. line_ready (board g) Cell_O l"
  shows "\<exists>line p. find (line_ready (board g) Cell_O) WIN_LINES = Some line \<and>
     p \<in> set line \<and> blank (board g) p \<and>
     (\<forall>q \<in> set line. q \<noteq> p \<longrightarrow> board_get (board g) (fst q) (snd q) = Inr Cell_O) \<and>
     fst (bot_move g cs es) = Inr (Some p)"
proof -
  from assms(4) obtain line where l: "find (line_ready (board g) Cell_O) WIN_LINES = Some line"
    by (cases "find (line_ready (board g) Cell_O) WIN_LINES") (auto simp: find_None_iff)
  then have r: "line_ready (board g) Cell_O line" by (auto dest: find_SomeD)
  then obtain p where p: "p \<in> set line" "blank (board g) p"
    "\<forall>q \<in> set line. q \<noteq> p \<longrightarrow> board_get (board g) (fst q) (snd q) = Inr Cell_O"
    by (auto simp: line_ready_def)
  have "find (blank (board g)) line = Some p"
    using r _ p(1,2) by (rule line_ready_blank) simp
  then have w: "winning_cell (board g) Cell_O = Some p" using l by (simp add: winning_cell_def)
  have "find_winning_move g Cell_O = Inr (Some p)"
    using find_winning_move_wf [OF assms(1), of Cell_O] w by simp
  then have "fst (bot_move g cs es) = Inr (Some p)"
    unfolding bot_move_def using assms(2,3) by simp
  with l p show ?thesis by blast
qed

theorem bot_move_takes_win_witness:
  "wf_board (board bot_game) \<and> \<not> game_over bot_game \<and> current_turn bot_game = Cell_O \<and>
   (\<exists>l \<in> set WIN_LINES. line_ready (board bot_game) Cell_O l) \<and>
   (\<exists>line p. find (line_ready (board bot_game) Cell_O) WIN_LINES = Some line \<and>
     p \<in> set line \<and> blank (board bot_game) p \<and>
     (\<forall>q \<in> set line. q \<noteq> p \<longrightarrow> board_get (board bot_game) (fst q) (snd q) = Inr Cell_O) \<and>
     fst (bot_move bot_game corners edges) = Inr (Some p))"
proof -
  have h: "wf_board (board bot_game)" "\<not> game_over bot_game" "current_turn bot_game = Cell_O"
    by (simp_all add: bot_game_def wf_board_def)
  have "line_ready (board bot_game) Cell_O [(0, 0), (0, 1), (0, 2)]"
    by (simp add: line_ready_def blank_def bot_game_def board_get_def py_get_def py_index_def)
  then have r: "\<exists>l \<in> set WIN_LINES. line_ready (board bot_game) Cell_O l"
    by (auto simp: WIN_LINES_def)
  show ?thesis using bot_move_takes_win [OF h r, of corners edges] h r by blast
qed

text \<open>
  C7. On a three by three board with O to move, whatever order the shuffles leave the
  corners and the edges in: \<open>bot_move\<close> returns \<open>None\<close> exactly when the game is over or
  no cell is empty; and when the game is not over and a cell is empty, it returns a
  coordinate, which is in the grid and names an empty cell.
\<close>

theorem bot_move_total:
  assumes "wf_board (board g)" and "current_turn g = Cell_O"
    and "mset cs = mset corners" and "mset es = mset edges"
  shows "(fst (bot_move g cs es) = Inr None \<longleftrightarrow> game_over g \<or> \<not> has_empty (board g)) \<and>
     (\<not> game_over g \<and> has_empty (board g) \<longrightarrow>
        (\<exists>p. fst (bot_move g cs es) = Inr (Some p) \<and> in_grid p \<and> blank (board g) p))"
proof (cases "game_over g")
  case True
  then show ?thesis by (simp add: bot_move_def)
next
  case False
  let ?b = "board g"
  have sc: "set cs = set corners" and se: "set es = set edges"
    using assms(3,4) by (auto dest: mset_eq_setD)
  have gc: "\<forall>q \<in> set cs. in_grid q" and ge: "\<forall>q \<in> set es. in_grid q"
    unfolding sc se by (auto simp: in_grid_parts)
  note bm = bot_move_wf [OF assms(1) False assms(2) gc ge]
  have he: "has_empty ?b \<longleftrightarrow> blank ?b (1, 1) \<or> (\<exists>p \<in> set cs. blank ?b p) \<or> (\<exists>p \<in> set es. blank ?b p)"
    unfolding has_empty_def sc se by (auto simp: all_coords_iff in_grid_parts)
  have some: "in_grid p \<and> blank ?b p" if "fst (bot_move g cs es) = Inr (Some p)" for p
  proof -
    from that have "winning_cell ?b Cell_O = Some p \<or> winning_cell ?b Cell_X = Some p \<or>
        (p = (1, 1) \<and> blank ?b (1, 1)) \<or> find (blank ?b) cs = Some p \<or>
        find (blank ?b) es = Some p"
      unfolding bm by (simp split: option.splits if_splits)
    then consider (w) m where "winning_cell ?b m = Some p" | (c) "p = (1, 1)" "blank ?b (1, 1)"
      | (l) xs where "find (blank ?b) xs = Some p" "\<forall>q \<in> set xs. in_grid q"
      using gc ge by blast
    then show ?thesis
    proof cases
      case w
      then show ?thesis by (rule winning_cell_Some)
    next
      case c
      then show ?thesis by (simp add: in_grid_def)
    next
      case l
      then show ?thesis by (auto dest: find_SomeD)
    qed
  qed
  have none: "fst (bot_move g cs es) = Inr None \<longleftrightarrow> \<not> has_empty ?b"
  proof
    assume "fst (bot_move g cs es) = Inr None"
    then show "\<not> has_empty ?b"
      unfolding bm he by (auto split: option.splits if_splits simp: find_None_iff)
  next
    assume ne: "\<not> has_empty ?b"
    have "winning_cell ?b m = None" for m
    proof (cases "winning_cell ?b m")
      case (Some p)
      then have "in_grid p \<and> blank ?b p" by (rule winning_cell_Some)
      then have "has_empty ?b" unfolding has_empty_def by (auto simp: all_coords_iff)
      with ne show ?thesis by simp
    qed
    moreover have "\<not> blank ?b (1, 1)" "find (blank ?b) cs = None" "find (blank ?b) es = None"
      using ne unfolding he by (auto simp: find_None_iff)
    ultimately show "fst (bot_move g cs es) = Inr None" unfolding bm by simp
  qed
  have "\<exists>p. fst (bot_move g cs es) = Inr (Some p)" if "has_empty ?b"
  proof -
    from that none have "fst (bot_move g cs es) \<noteq> Inr None" by simp
    then show ?thesis unfolding bm by (cases "fst (bot_move g cs es)") (auto simp: bm)
  qed
  with some none False show ?thesis by blast
qed

theorem bot_move_total_witness:
  "wf_board (board center_game) \<and> current_turn center_game = Cell_O \<and>
   mset [(2, 2), (0, 0), (2, 0), (0, 2)] = mset corners \<and>
   mset [(2, 1), (0, 1), (1, 2), (1, 0)] = mset edges \<and>
   \<not> game_over center_game \<and> has_empty (board center_game) \<and>
   (\<exists>p. fst (bot_move center_game [(2, 2), (0, 0), (2, 0), (0, 2)]
                 [(2, 1), (0, 1), (1, 2), (1, 0)]) = Inr (Some p) \<and>
        in_grid p \<and> blank (board center_game) p)"
proof -
  have h: "wf_board (board center_game)" "current_turn center_game = Cell_O"
    "mset [(2, 2), (0, 0), (2, 0), (0, 2)] = mset corners"
    "mset [(2, 1), (0, 1), (1, 2), (1, 0)] = mset edges"
    by (simp_all add: center_game_def wf_board_def corners_def edges_def)
  have n: "\<not> game_over center_game" by (simp add: center_game_def)
  have "blank (board center_game) (0, 0)"
    by (simp add: blank_def center_game_def board_get_def py_get_def py_index_def)
  then have e: "has_empty (board center_game)"
    by (auto simp: has_empty_def all_coords_def)
  show ?thesis using bot_move_total [OF h] h n e by blast
qed

end
